theory Spec2Isabelle
  imports Main "HOL-Library.Sublist"
begin

section \<open>Python strings\<close>

text \<open>
  A Python \<open>str\<close> is modelled as a \<^typ>\<open>string\<close>, a list of \<^typ>\<open>char\<close>: the model covers
  the texts whose code points lie below 256. On these, \<open>str.isspace\<close> holds of the
  code points 9 to 13, 28 to 32, 133 and 160, and \<open>str.strip()\<close> without argument removes
  the longest run of such characters at either end.
\<close>

definition isspace :: "char \<Rightarrow> bool" where
  "isspace c =
     (let n = (of_char c :: nat)
      in (9 \<le> n \<and> n \<le> 13) \<or> (28 \<le> n \<and> n \<le> 32) \<or> n = 133 \<or> n = 160)"

definition lstrip :: "string \<Rightarrow> string" where
  "lstrip s = dropWhile isspace s"

definition rstrip :: "string \<Rightarrow> string" where
  "rstrip s = rev (dropWhile isspace (rev s))"

definition strip :: "string \<Rightarrow> string" where
  "strip s = rstrip (lstrip s)"

text \<open>\<open>s.startswith(p)\<close>, \<open>s.endswith(p)\<close> and \<open>p in s\<close>.\<close>

fun startswith :: "string \<Rightarrow> string \<Rightarrow> bool" where
  "startswith s [] = True"
| "startswith [] (p # ps) = False"
| "startswith (c # cs) (p # ps) = (c = p \<and> startswith cs ps)"

definition endswith :: "string \<Rightarrow> string \<Rightarrow> bool" where
  "endswith s p = startswith (rev s) (rev p)"

fun contains :: "string \<Rightarrow> string \<Rightarrow> bool" where
  "contains p [] = (p = [])"
| "contains p (c # cs) = (startswith (c # cs) p \<or> contains p cs)"

text \<open>The number of positions of \<open>s\<close> at which \<open>p\<close> occurs (occurrences may overlap).\<close>

fun occurrences :: "string \<Rightarrow> string \<Rightarrow> nat" where
  "occurrences p [] = (if p = [] then 1 else 0)"
| "occurrences p (c # cs) = (if startswith (c # cs) p then 1 else 0) + occurrences p cs"

text \<open>\<open>sep.join(xs)\<close>.\<close>

fun join :: "string \<Rightarrow> string list \<Rightarrow> string" where
  "join sep [] = []"
| "join sep [x] = x"
| "join sep (x # y # ys) = x @ sep @ join sep (y # ys)"

section \<open>The section pattern\<close>

text \<open>
  \<open>self.markers\<close> is a dictionary with the two keys \<open>"start"\<close> and \<open>"end"\<close>. The
  constructor (line 13 of \<open>setup.py\<close>) sets both to \<open>"## local-helpers"\<close>.
\<close>

record marker_pair =
  start_marker :: string
  end_marker :: string

definition shipped_markers :: marker_pair where
  "shipped_markers = \<lparr>start_marker = ''## local-helpers'', end_marker = ''## local-helpers''\<rparr>"

text \<open>
  \<open>find_existing_section\<close> and \<open>remove_existing_section\<close> compile the pattern
  \<open>re.escape(start) + ".*?" + re.escape(end)\<close> with \<open>re.DOTALL\<close>: the literal start
  marker, then as few characters as possible (any character, newlines too), then the
  literal end marker.

  \<open>lazy_until e s\<close> is \<open>.*?\<close> followed by the literal \<open>e\<close>, tried at the head of \<open>s\<close>:
  the end marker is tried after 0, 1, 2, ... skipped characters and the first success
  wins. The result is the skipped text and the text after the end marker.
\<close>

fun lazy_until :: "string \<Rightarrow> string \<Rightarrow> (string \<times> string) option" where
  "lazy_until e [] = (if e = [] then Some ([], []) else None)"
| "lazy_until e (c # cs) =
     (if startswith (c # cs) e then Some ([], drop (length e) (c # cs))
      else map_option (\<lambda>(b, r). (c # b, r)) (lazy_until e cs))"

text \<open>
  The whole pattern tried at the head of \<open>s\<close>: the matched text and the text after it.
\<close>

definition match_at :: "marker_pair \<Rightarrow> string \<Rightarrow> (string \<times> string) option" where
  "match_at m s =
     (if startswith s (start_marker m)
      then map_option (\<lambda>(b, r). (start_marker m @ b @ end_marker m, r))
             (lazy_until (end_marker m) (drop (length (start_marker m)) s))
      else None)"

text \<open>
  \<open>pattern.search(content)\<close>: the pattern is tried at position 0, 1, 2, ... up to the
  end of the text, and the first position where it matches wins. The result is the text
  before the match, the match and the text after it; \<open>None\<close> is Python's \<open>None\<close>.
\<close>

fun search :: "marker_pair \<Rightarrow> string \<Rightarrow> (string \<times> string \<times> string) option" where
  "search m [] = map_option (\<lambda>(mt, r). ([], mt, r)) (match_at m [])"
| "search m (c # cs) =
     (case match_at m (c # cs) of
        Some (mt, r) \<Rightarrow> Some ([], mt, r)
      | None \<Rightarrow> map_option (\<lambda>(p, mt, r). (c # p, mt, r)) (search m cs))"

definition find_existing_section ::
  "marker_pair \<Rightarrow> string \<Rightarrow> (string \<times> string \<times> string) option" where
  "find_existing_section m content = search m content"

lemma startswith_append: "startswith (p @ r) p"
  by (induction p) auto

lemma startswith_decomp: "startswith s p \<Longrightarrow> s = p @ drop (length p) s"
  by (induction s p rule: startswith.induct) auto

lemma startswith_iff: "startswith s p \<longleftrightarrow> (\<exists>r. s = p @ r)"
  using startswith_append startswith_decomp by metis

lemma startswith_prefix: "startswith s p \<longleftrightarrow> prefix p s"
  by (simp add: startswith_iff prefix_def)

lemma lazy_until_decomp: "lazy_until e s = Some (b, r) \<Longrightarrow> s = b @ e @ r"
proof (induction s arbitrary: b)
  case Nil
  then show ?case by (simp split: if_splits)
next
  case (Cons c cs)
  show ?case
  proof (cases "startswith (c # cs) e")
    case True
    with Cons.prems startswith_decomp [OF True] show ?thesis by simp
  next
    case False
    with Cons.prems obtain b' where "lazy_until e cs = Some (b', r)" and "b = c # b'"
      by auto
    with Cons.IH show ?thesis by simp
  qed
qed

lemma match_at_decomp: "match_at m s = Some (mt, r) \<Longrightarrow> s = mt @ r"
  unfolding match_at_def
  by (auto split: if_splits dest!: lazy_until_decomp startswith_decomp)

text \<open>
  \<open>pattern.sub("", content)\<close>: the text is scanned from the left; where the pattern
  matches, the match is dropped and the scan goes on behind it, and where it does not,
  one character is copied. An empty match (possible only when both markers are empty)
  is followed by a second attempt at the same position that has to advance; there the
  lazy \<open>.*?\<close> takes one character, which is dropped as well (Python 3.7 and later).
\<close>

function sub_empty :: "marker_pair \<Rightarrow> string \<Rightarrow> string" where
  "sub_empty m [] = []"
| "sub_empty m (c # cs) =
     (case match_at m (c # cs) of
        None \<Rightarrow> c # sub_empty m cs
      | Some (mt, r) \<Rightarrow> if mt = [] then sub_empty m cs else sub_empty m r)"
  by pat_completeness auto
termination
proof (relation "measure (\<lambda>(m, s). length s)")
  show "wf (measure (\<lambda>(m, s). length s))" by simp
next
  fix m :: marker_pair and c :: char and cs :: string
  show "((m, cs), (m, c # cs)) \<in> measure (\<lambda>(m, s). length s)" by simp
next
  fix m :: marker_pair and c :: char and cs :: string
  show "((m, cs), (m, c # cs)) \<in> measure (\<lambda>(m, s). length s)" by simp
next
  fix m :: marker_pair and c cs x2 mt r
  assume "match_at m (c # cs) = Some x2" and "(mt, r) = x2" and "mt \<noteq> []"
  then have "c # cs = mt @ r" and "mt \<noteq> []"
    using match_at_decomp [of m "c # cs" mt r] by auto
  then have "length r < length (c # cs)"
    by (metis length_append length_greater_0_conv less_add_same_cancel2)
  then show "((m, r), (m, c # cs)) \<in> measure (\<lambda>(m, s). length s)" by simp
qed

definition remove_existing_section :: "marker_pair \<Rightarrow> string \<Rightarrow> string" where
  "remove_existing_section m content = strip (sub_empty m content)"

section \<open>The generated block\<close>

text \<open>
  The manager object: the marker pair, the aliases loaded from \<open>alias.txt\<close> (a Python
  dictionary, iterated in insertion order: a list of pairs with distinct names) and the
  script directory. \<open>script_dir_path mgr name\<close> stands for \<open>str(self.script_dir / name)\<close>,
  which \<open>pathlib\<close> computes.
\<close>

record manager =
  markers :: marker_pair
  aliases :: "(string \<times> string) list"
  script_dir_path :: "string \<Rightarrow> string"

definition get_script_absolute_path :: "manager \<Rightarrow> string \<Rightarrow> string" where
  "get_script_absolute_path mgr script_name =
     map (\<lambda>c. if c = CHR 0x5C then CHR ''/'' else c) (script_dir_path mgr script_name)"

text \<open>One line of the block per alias (the body of the loop of \<open>generate_alias_content\<close>).\<close>

definition alias_line :: "manager \<Rightarrow> string \<times> string \<Rightarrow> string" where
  "alias_line mgr entry =
     (let alias_name = fst entry; command = snd entry
      in if contains ''(){'' command then command
         else if endswith command ''.sh'' \<or> endswith command ''.py''
           then (let script_path = get_script_absolute_path mgr command
                 in if endswith command ''.sh''
                    then ''alias '' @ alias_name @ ''='' @ [CHR 0x22] @ script_path @ [CHR 0x22]
                    else ''alias '' @ alias_name @ ''='' @ [CHR 0x22] @ ''python3 '' @ script_path
                           @ [CHR 0x22])
           else ''alias '' @ alias_name @ ''='' @ [CHR 0x22] @ command @ [CHR 0x22])"

definition generate_alias_content :: "manager \<Rightarrow> string" where
  "generate_alias_content mgr =
     join ''\<newline>''
       ([start_marker (markers mgr),
         ''# Aliases for local helper scripts'',
         ''# Generated automatically by setup.py'',
         []]
        @ map (alias_line mgr) (aliases mgr)
        @ [[], end_marker (markers mgr)])"

section \<open>The merge\<close>

text \<open>
  Lines 142 to 147 of \<open>update_shell_config\<close>: the text that is kept of
  \<open>current_content\<close>. A match object is true, \<open>None\<close> is false.
\<close>

definition new_content :: "marker_pair \<Rightarrow> string \<Rightarrow> string" where
  "new_content m current_content =
     (if find_existing_section m current_content \<noteq> None
      then remove_existing_section m current_content
      else current_content)"

text \<open>
  Lines 142 to 154: the new text of the file, from \<open>current_content\<close> and the generated
  block \<open>alias_content\<close>. A non-empty string is true.
\<close>

definition merge_section :: "marker_pair \<Rightarrow> string \<Rightarrow> string \<Rightarrow> string" where
  "merge_section m alias_content current_content =
     (let kept = new_content m current_content
      in if kept \<noteq> [] then kept @ ''\<newline>\<newline>'' @ alias_content else alias_content)"

text \<open>
  \<open>Path.read_text()\<close> opens the file in text mode: a carriage return followed by a line
  feed, and a carriage return alone, are read as one line feed.
\<close>

fun read_text :: "string \<Rightarrow> string" where
  "read_text [] = []"
| "read_text [c] = (if c = CHR 0x0D then ''\<newline>'' else [c])"
| "read_text (c # c' # cs) =
     (if c = CHR 0x0D
      then (if c' = CHR ''\<newline>'' then CHR ''\<newline>'' # read_text cs
            else CHR ''\<newline>'' # read_text (c' # cs))
      else c # read_text (c' # cs))"

text \<open>
  \<open>update_shell_config\<close>, on the state of the configuration file: its stored text, or
  \<open>None\<close> for a file that does not exist and is created empty by \<open>touch\<close>. The result
  is the text copied to the backup file (\<open>shutil.copy2\<close> copies the stored text as it
  is) and the text handed to \<open>write_text\<close>. What is printed is left out.
\<close>

definition update_shell_config :: "manager \<Rightarrow> string option \<Rightarrow> string \<times> string" where
  "update_shell_config mgr file =
     (let stored = (case file of None \<Rightarrow> [] | Some t \<Rightarrow> t);
          current_content = strip (read_text stored)
      in (stored, merge_section (markers mgr) (generate_alias_content mgr) current_content))"

text \<open>
  The specification's \<open>merge(document, generated, markers)\<close> is \<open>update_shell_config\<close> as a
  function of the text of the file as read, with the marker pair and the body of the generated
  block as parameters: \<open>wrap\<close> is the shape \<open>generate_alias_content\<close> gives the block, the
  body being the lines between the two marker lines.
\<close>

definition wrap :: "marker_pair \<Rightarrow> string \<Rightarrow> string" where
  "wrap m g = start_marker m @ ''\<newline>'' @ g @ ''\<newline>'' @ end_marker m"

definition alias_body :: "manager \<Rightarrow> string" where
  "alias_body mgr =
     join ''\<newline>''
       ([''# Aliases for local helper scripts'',
         ''# Generated automatically by setup.py'',
         []]
        @ map (alias_line mgr) (aliases mgr)
        @ [[]])"

definition merge :: "string \<Rightarrow> string \<Rightarrow> marker_pair \<Rightarrow> string" where
  "merge d g m = merge_section m (wrap m g) (strip d)"

text \<open>
  The markers the results below are stated for: not empty, on one line, and without
  whitespace at either end. The shipped markers are of this kind.
\<close>

definition plain_marker :: "string \<Rightarrow> bool" where
  "plain_marker s \<longleftrightarrow>
     s \<noteq> [] \<and> CHR ''\<newline>'' \<notin> set s \<and> \<not> isspace (hd s) \<and> \<not> isspace (last s)"

section \<open>Facts about trimming\<close>

lemma isspace_newline: "isspace CHR ''\<newline>''"
  by (simp add: isspace_def)

lemma strip_Nil: "strip [] = []"
  by (simp add: strip_def lstrip_def rstrip_def)

lemma lstrip_id_iff: "lstrip s = s \<longleftrightarrow> s = [] \<or> \<not> isspace (hd s)"
  by (simp add: lstrip_def dropWhile_eq_self_iff)

lemma rstrip_id_iff: "rstrip s = s \<longleftrightarrow> s = [] \<or> \<not> isspace (last s)"
proof -
  have "rstrip s = s \<longleftrightarrow> dropWhile isspace (rev s) = rev s"
    unfolding rstrip_def by (metis rev_rev_ident)
  then show ?thesis
    by (simp add: dropWhile_eq_self_iff hd_rev)
qed

lemma length_lstrip: "length (lstrip s) \<le> length s"
  by (simp add: lstrip_def length_dropWhile_le)

lemma length_rstrip: "length (rstrip s) \<le> length s"
  unfolding rstrip_def by (metis length_dropWhile_le length_rev)

lemma lstrip_decomp: "s = takeWhile isspace s @ lstrip s"
  by (simp add: lstrip_def)

lemma rstrip_decomp: "s = rstrip s @ rev (takeWhile isspace (rev s))"
  unfolding rstrip_def by (metis rev_append rev_rev_ident takeWhile_dropWhile_id)

lemma strip_decomp:
  "\<exists>a b. s = a @ strip s @ b \<and> (\<forall>c\<in>set a. isspace c) \<and> (\<forall>c\<in>set b. isspace c)"
proof -
  let ?a = "takeWhile isspace s" and ?b = "rev (takeWhile isspace (rev (lstrip s)))"
  have "s = ?a @ strip s @ ?b"
    using lstrip_decomp [of s] rstrip_decomp [of "lstrip s"] by (simp add: strip_def)
  moreover have "\<forall>c\<in>set ?a. isspace c" by (meson set_takeWhileD)
  moreover have "\<forall>c\<in>set ?b. isspace c" by (metis set_rev set_takeWhileD)
  ultimately show ?thesis by blast
qed

lemma strip_id_iff: "strip s = s \<longleftrightarrow> s = [] \<or> (\<not> isspace (hd s) \<and> \<not> isspace (last s))"
proof
  assume eq: "strip s = s"
  have "length (lstrip s) = length s"
    using length_rstrip [of "lstrip s"] length_lstrip [of s] eq by (simp add: strip_def)
  then have l: "lstrip s = s"
    using lstrip_decomp [of s] by (metis append_self_conv2 length_0_conv length_append add_cancel_right_left)
  with eq have "rstrip s = s" by (simp add: strip_def)
  with l show "s = [] \<or> (\<not> isspace (hd s) \<and> \<not> isspace (last s))"
    by (auto simp: lstrip_id_iff rstrip_id_iff)
next
  assume "s = [] \<or> (\<not> isspace (hd s) \<and> \<not> isspace (last s))"
  then have "lstrip s = s" and "rstrip s = s"
    by (auto simp: lstrip_id_iff rstrip_id_iff)
  then show "strip s = s" by (simp add: strip_def)
qed

lemma lstrip_hd: "lstrip s \<noteq> [] \<Longrightarrow> \<not> isspace (hd (lstrip s))"
  unfolding lstrip_def by (metis hd_dropWhile)

lemma rstrip_last: "rstrip s \<noteq> [] \<Longrightarrow> \<not> isspace (last (rstrip s))"
  unfolding rstrip_def by (metis hd_dropWhile last_rev rev_is_Nil_conv)

lemma rstrip_hd: "rstrip s \<noteq> [] \<Longrightarrow> hd (rstrip s) = hd s"
  using rstrip_decomp [of s] by (metis hd_append2)

lemma strip_idem: "strip (strip s) = strip s"
proof (cases "strip s = []")
  case True
  then show ?thesis by (simp add: strip_Nil)
next
  case False
  then have ne: "rstrip (lstrip s) \<noteq> []" by (simp add: strip_def)
  then have "lstrip s \<noteq> []" by (auto simp: rstrip_def)
  then have "\<not> isspace (hd (lstrip s))" by (rule lstrip_hd)
  with rstrip_hd [OF ne] have "\<not> isspace (hd (strip s))" by (simp add: strip_def)
  moreover have "\<not> isspace (last (strip s))"
    using rstrip_last [OF ne] by (simp add: strip_def)
  ultimately show ?thesis by (simp add: strip_id_iff)
qed

lemma strip_all_space: "\<forall>c\<in>set w. isspace c \<Longrightarrow> strip w = []"
proof -
  assume "\<forall>c\<in>set w. isspace c"
  then have dw: "dropWhile isspace w = []" by simp
  show ?thesis unfolding strip_def lstrip_def rstrip_def dw by simp
qed

lemma strip_append_space:
  assumes "strip s = s" and "s \<noteq> []" and "\<forall>c\<in>set w. isspace c"
  shows "strip (s @ w) = s"
proof -
  from assms have h: "\<not> isspace (hd s)" and l: "\<not> isspace (last s)"
    by (auto simp: strip_id_iff)
  from h assms(2) have "lstrip (s @ w) = s @ w"
    by (simp add: lstrip_id_iff)
  moreover have "rstrip (s @ w) = s"
  proof -
    have "dropWhile isspace (rev w @ rev s) = dropWhile isspace (rev s)"
      using assms(3) by (simp add: dropWhile_append)
    also have "\<dots> = rev s"
      using l assms(2) by (simp add: dropWhile_eq_self_iff hd_rev)
    finally show ?thesis by (simp add: rstrip_def)
  qed
  ultimately show ?thesis by (simp add: strip_def)
qed

section \<open>Facts about the pattern\<close>

lemma contains_iff: "contains p s \<longleftrightarrow> (\<exists>a b. s = a @ p @ b)"
proof (induction s)
  case Nil
  then show ?case by auto
next
  case (Cons c cs)
  show ?case
  proof
    assume "contains p (c # cs)"
    then consider "startswith (c # cs) p" | "contains p cs" by auto
    then show "\<exists>a b. c # cs = a @ p @ b"
    proof cases
      case 1
      then obtain r where "c # cs = p @ r" by (auto simp: startswith_iff)
      then have "c # cs = [] @ p @ r" by simp
      then show ?thesis by blast
    next
      case 2
      with Cons.IH obtain a b where "cs = a @ p @ b" by auto
      then have "c # cs = (c # a) @ p @ b" by simp
      then show ?thesis by blast
    qed
  next
    assume "\<exists>a b. c # cs = a @ p @ b"
    then obtain a b where ab: "c # cs = a @ p @ b" by auto
    show "contains p (c # cs)"
    proof (cases a)
      case Nil
      with ab have "startswith (c # cs) p" by (auto simp: startswith_iff)
      then show ?thesis by simp
    next
      case (Cons x a')
      with ab have "cs = a' @ p @ b" by simp
      with Cons.IH have "contains p cs" by auto
      then show ?thesis by simp
    qed
  qed
qed

lemma contains_appendI: "contains p s \<Longrightarrow> contains p (a @ s @ b)"
proof -
  assume "contains p s"
  then obtain x y where "s = x @ p @ y" by (auto simp: contains_iff)
  then have "a @ s @ b = (a @ x) @ p @ (y @ b)" by simp
  then show ?thesis unfolding contains_iff by blast
qed

lemma contains_self: "contains p p"
  unfolding contains_iff by (metis append_Nil append_Nil2)

lemma lazy_until_None_iff: "lazy_until e s = None \<longleftrightarrow> \<not> contains e s"
  by (induction s) auto

lemma startswith_Nil: "startswith [] p \<longleftrightarrow> p = []"
  by (cases p) auto

lemma match_at_None_iff:
  "match_at m s = None \<longleftrightarrow>
     \<not> (startswith s (start_marker m) \<and> contains (end_marker m) (drop (length (start_marker m)) s))"
  by (simp add: match_at_def lazy_until_None_iff)

lemma search_decomp:
  "search m s = Some (p, mt, r) \<Longrightarrow>
     s = p @ mt @ r \<and> (\<exists>b. mt = start_marker m @ b @ end_marker m) \<and> match_at m (mt @ r) = Some (mt, r)"
proof (induction s arbitrary: p)
  case Nil
  then show ?case
    by (auto simp: match_at_def startswith_Nil split: if_splits dest!: lazy_until_decomp)
next
  case (Cons c cs)
  show ?case
  proof (cases "match_at m (c # cs)")
    case None
    with Cons.prems obtain p' where "search m cs = Some (p', mt, r)" and "p = c # p'"
      by auto
    with Cons.IH show ?thesis by auto
  next
    case (Some a)
    with Cons.prems have a: "a = (mt, r)" and p: "p = []" by (auto split: prod.splits)
    from Some a have eq: "c # cs = mt @ r" by (simp add: match_at_decomp)
    from Some a have "\<exists>b. mt = start_marker m @ b @ end_marker m"
      by (auto simp: match_at_def split: if_splits)
    with Some a p eq show ?thesis by simp
  qed
qed

lemma search_Some_iff:
  "search m s \<noteq> None \<longleftrightarrow> (\<exists>a b c. s = a @ start_marker m @ b @ end_marker m @ c)"
proof
  assume "search m s \<noteq> None"
  then obtain p mt r where "search m s = Some (p, mt, r)" by auto
  from search_decomp [OF this] show "\<exists>a b c. s = a @ start_marker m @ b @ end_marker m @ c"
    by (metis append.assoc)
next
  assume "\<exists>a b c. s = a @ start_marker m @ b @ end_marker m @ c"
  then obtain a b c where "s = a @ start_marker m @ b @ end_marker m @ c" by auto
  then show "search m s \<noteq> None"
  proof (induction a arbitrary: s)
    case Nil
    then have "startswith s (start_marker m)" by (simp add: startswith_append)
    moreover from Nil have "contains (end_marker m) (drop (length (start_marker m)) s)"
      by (simp add: contains_iff) blast
    ultimately have "match_at m s \<noteq> None" by (simp add: match_at_None_iff)
    then show ?case by (cases s) auto
  next
    case (Cons x a)
    then have "search m (a @ start_marker m @ b @ end_marker m @ c) \<noteq> None" by blast
    with Cons.prems show ?case by (auto split: option.splits)
  qed
qed

lemma search_None_iff:
  "search m s = None \<longleftrightarrow> (\<forall>a b c. s \<noteq> a @ start_marker m @ b @ end_marker m @ c)"
  using search_Some_iff [of m s] by blast

lemma search_None_sub: "search m s = None \<Longrightarrow> sub_empty m s = s"
  by (induction s) (auto split: option.splits)

lemma search_Some_sub:
  "search m s = Some (p, mt, r) \<Longrightarrow> mt \<noteq> [] \<Longrightarrow> sub_empty m s = p @ sub_empty m r"
proof (induction s arbitrary: p)
  case Nil
  then show ?case by (auto dest: match_at_decomp)
next
  case (Cons c cs)
  then show ?case by (auto split: option.splits)
qed

lemma startswith_sep: "c \<notin> set p \<Longrightarrow> startswith (a @ c # b) p \<longleftrightarrow> startswith a p"
proof (induction a arbitrary: p)
  case Nil
  then show ?case by (cases p) auto
next
  case (Cons y a)
  then show ?case by (cases p) auto
qed

lemma contains_sep:
  "c \<notin> set p \<Longrightarrow> p \<noteq> [] \<Longrightarrow> contains p (a @ c # b) \<longleftrightarrow> contains p a \<or> contains p b"
proof (induction a)
  case Nil
  then show ?case using startswith_sep [of c p "[]" b] by (simp add: startswith_Nil)
next
  case (Cons y a)
  then show ?case using startswith_sep [of c p "y # a" b] by auto
qed


lemma lazy_until_sep:
  "\<not> contains e a \<Longrightarrow> c \<notin> set e \<Longrightarrow> e \<noteq> [] \<Longrightarrow>
     lazy_until e (a @ c # b) = map_option (\<lambda>(x, r). (a @ c # x, r)) (lazy_until e b)"
proof (induction a)
  case Nil
  then show ?case
    using startswith_sep [of c e "[]" b] by (simp add: startswith_Nil option.map_ident)
next
  case (Cons y a)
  then show ?case
    using startswith_sep [of c e "y # a" b]
    by (auto simp: option.map_comp comp_def split_def)
qed

lemma lazy_until_self: "lazy_until e (e @ r) = Some ([], r)"
proof (cases "e @ r")
  case Nil
  then show ?thesis by simp
next
  case (Cons x xs)
  have "startswith (e @ r) e" by (rule startswith_append)
  moreover have "drop (length e) (e @ r) = r" by simp
  ultimately have "lazy_until e (x # xs) = Some ([], r)"
    unfolding Cons by simp
  then show ?thesis by (simp add: Cons)
qed

lemma search_sep:
  "\<not> contains (start_marker m) a \<Longrightarrow> c \<notin> set (start_marker m) \<Longrightarrow> start_marker m \<noteq> [] \<Longrightarrow>
     search m (a @ c # b) = map_option (\<lambda>(p, mt, r). (a @ c # p, mt, r)) (search m b)"
proof (induction a)
  case Nil
  then have "match_at m (c # b) = None"
    using startswith_sep [of c "start_marker m" "[]" b] by (simp add: match_at_None_iff startswith_Nil)
  then show ?case by (simp add: option.map_ident)
next
  case (Cons y a)
  then have "match_at m (y # a @ c # b) = None"
    using startswith_sep [of c "start_marker m" "y # a" b] by (simp add: match_at_None_iff)
  with Cons show ?case
    by (auto simp: option.map_comp comp_def split_def)
qed

lemma sub_empty_sep:
  "\<not> contains (start_marker m) a \<Longrightarrow> c \<notin> set (start_marker m) \<Longrightarrow> start_marker m \<noteq> [] \<Longrightarrow>
     sub_empty m (a @ c # b) = a @ c # sub_empty m b"
proof (induction a)
  case Nil
  then have "match_at m (c # b) = None"
    using startswith_sep [of c "start_marker m" "[]" b] by (simp add: match_at_None_iff startswith_Nil)
  then show ?case by simp
next
  case (Cons y a)
  then have "match_at m (y # a @ c # b) = None"
    using startswith_sep [of c "start_marker m" "y # a" b] by (simp add: match_at_None_iff)
  with Cons show ?case by simp
qed

section \<open>Facts about the merge\<close>

lemma wrap_Cons: "wrap m g = start_marker m @ CHR ''\<newline>'' # g @ CHR ''\<newline>'' # end_marker m"
  by (simp add: wrap_def)

lemma wrap_not_Nil: "wrap m g \<noteq> []"
  by (simp add: wrap_def)

lemma match_at_wrap:
  assumes "end_marker m \<noteq> []" and "CHR ''\<newline>'' \<notin> set (end_marker m)"
    and "\<not> contains (end_marker m) g"
  shows "match_at m (wrap m g) = Some (wrap m g, [])"
proof -
  let ?e = "end_marker m"
  have "lazy_until ?e (g @ CHR ''\<newline>'' # ?e) = Some (g @ ''\<newline>'', [])"
    using lazy_until_sep [OF assms(3) assms(2) assms(1), of ?e] lazy_until_self [of ?e "[]"]
    by simp
  then have "lazy_until ?e ([] @ CHR ''\<newline>'' # g @ CHR ''\<newline>'' # ?e)
      = Some (CHR ''\<newline>'' # g @ ''\<newline>'', [])"
    using lazy_until_sep [of ?e "[]" "CHR ''\<newline>''" "g @ CHR ''\<newline>'' # ?e"] assms(1,2)
    by simp
  then show ?thesis
    by (simp add: match_at_def wrap_Cons startswith_append)
qed

lemma search_wrap:
  assumes "end_marker m \<noteq> []" and "CHR ''\<newline>'' \<notin> set (end_marker m)"
    and "\<not> contains (end_marker m) g"
  shows "search m (wrap m g) = Some ([], wrap m g, [])"
  using match_at_wrap [OF assms] wrap_not_Nil [of m g]
  by (cases "wrap m g") auto

lemma search_kept_wrap:
  assumes "start_marker m \<noteq> []" and "CHR ''\<newline>'' \<notin> set (start_marker m)"
    and "\<not> contains (start_marker m) K"
    and "end_marker m \<noteq> []" and "CHR ''\<newline>'' \<notin> set (end_marker m)"
    and "\<not> contains (end_marker m) g"
  shows "search m (K @ ''\<newline>\<newline>'' @ wrap m g) = Some (K @ ''\<newline>\<newline>'', wrap m g, [])"
proof -
  have "search m ([] @ CHR ''\<newline>'' # wrap m g) = Some (''\<newline>'', wrap m g, [])"
    using search_sep [of m "[]" "CHR ''\<newline>''" "wrap m g"] assms(1,2)
      search_wrap [OF assms(4-6)] by simp
  then show ?thesis
    using search_sep [OF assms(3) assms(2) assms(1), of "CHR ''\<newline>'' # wrap m g"] by simp
qed

lemma sub_empty_wrap:
  assumes "end_marker m \<noteq> []" and "CHR ''\<newline>'' \<notin> set (end_marker m)"
    and "\<not> contains (end_marker m) g"
  shows "sub_empty m (wrap m g) = []"
  using search_Some_sub [OF search_wrap [OF assms] wrap_not_Nil] by simp

lemma sub_empty_kept_wrap:
  assumes "start_marker m \<noteq> []" and "CHR ''\<newline>'' \<notin> set (start_marker m)"
    and "\<not> contains (start_marker m) K"
    and "end_marker m \<noteq> []" and "CHR ''\<newline>'' \<notin> set (end_marker m)"
    and "\<not> contains (end_marker m) g"
  shows "sub_empty m (K @ ''\<newline>\<newline>'' @ wrap m g) = K @ ''\<newline>\<newline>''"
  using search_Some_sub [OF search_kept_wrap [OF assms] wrap_not_Nil] by simp

lemma new_content_eq: "new_content m c = strip (sub_empty m c) \<or> (search m c = None \<and> new_content m c = c)"
  by (cases "search m c")
    (simp_all add: new_content_def find_existing_section_def remove_existing_section_def)

lemma new_content_stripped: "strip c = c \<Longrightarrow> new_content m c = strip (sub_empty m c)"
  using new_content_eq [of m c] search_None_sub [of m c] by auto

lemma strip_new_content: "strip c = c \<Longrightarrow> strip (new_content m c) = new_content m c"
  by (simp add: new_content_stripped strip_idem)

lemma merge_section_eq:
  "merge_section m A c = (if new_content m c = [] then A else new_content m c @ ''\<newline>\<newline>'' @ A)"
  by (simp add: merge_section_def Let_def)

lemma merge_section_cong:
  "new_content m c = new_content m c' \<Longrightarrow> merge_section m A c = merge_section m A c'"
  by (simp add: merge_section_def)

lemma strip_wrap:
  assumes "plain_marker (start_marker m)" and "plain_marker (end_marker m)"
  shows "strip (wrap m g) = wrap m g"
proof -
  have "hd (wrap m g) = hd (start_marker m)" and "last (wrap m g) = last (end_marker m)"
    using assms by (simp_all add: wrap_Cons plain_marker_def)
  then show ?thesis using assms by (simp add: strip_id_iff plain_marker_def)
qed

lemma strip_kept_wrap:
  assumes "plain_marker (end_marker m)" and "strip K = K" and "K \<noteq> []"
  shows "strip (K @ ''\<newline>\<newline>'' @ wrap m g) = K @ ''\<newline>\<newline>'' @ wrap m g"
proof -
  have "hd (K @ ''\<newline>\<newline>'' @ wrap m g) = hd K"
    and "last (K @ ''\<newline>\<newline>'' @ wrap m g) = last (end_marker m)"
    using assms by (simp_all add: wrap_Cons plain_marker_def)
  moreover have "\<not> isspace (hd K)" using assms(2,3) by (simp add: strip_id_iff)
  ultimately show ?thesis using assms(1) by (simp add: strip_id_iff plain_marker_def)
qed

lemma new_content_output:
  assumes "plain_marker (start_marker m)" and "plain_marker (end_marker m)"
    and "strip K = K" and "\<not> contains (start_marker m) K" and "\<not> contains (end_marker m) g"
    and that: "new_content m c = K"
  shows "new_content m (strip (merge_section m (wrap m g) c)) = K"
proof (cases "K = []")
  case True
  then have "merge_section m (wrap m g) c = wrap m g"
    using that by (simp add: merge_section_eq)
  moreover have "new_content m (wrap m g) = []"
    using assms strip_wrap [of m g] sub_empty_wrap [of m g]
    by (simp add: new_content_stripped plain_marker_def strip_Nil)
  ultimately show ?thesis using assms strip_wrap [of m g] True by simp
next
  case False
  let ?out = "K @ ''\<newline>\<newline>'' @ wrap m g"
  have out: "merge_section m (wrap m g) c = ?out"
    using that False by (simp add: merge_section_eq)
  have s: "strip ?out = ?out"
    using strip_kept_wrap [OF assms(2,3) False] .
  have "sub_empty m ?out = K @ ''\<newline>\<newline>''"
    using sub_empty_kept_wrap [of m K g] assms by (simp add: plain_marker_def)
  moreover have "strip (K @ ''\<newline>\<newline>'') = K"
    using strip_append_space [OF assms(3) False, of "''\<newline>\<newline>''"] isspace_newline by simp
  ultimately have "new_content m ?out = K"
    using s by (simp add: new_content_stripped)
  then show ?thesis unfolding out s .
qed

lemma merge_merge:
  assumes "plain_marker (start_marker m)" and "plain_marker (end_marker m)"
    and "\<not> contains (start_marker m) (new_content m (strip d))"
    and "\<not> contains (end_marker m) g1"
  shows "merge (merge d g1 m) g2 m = merge d g2 m"
proof -
  let ?K = "new_content m (strip d)"
  have "strip ?K = ?K" by (simp add: strip_new_content strip_idem)
  then have "new_content m (strip (merge_section m (wrap m g1) (strip d))) = ?K"
    using new_content_output [OF assms(1,2) _ assms(3,4), of "strip d"] by simp
  then show ?thesis unfolding merge_def by (rule merge_section_cong)
qed

lemma join_Cons: "join sep (x # xs) = (if xs = [] then x else x @ sep @ join sep xs)"
  by (cases xs) auto

lemma join_snoc: "join sep (xs @ [y]) = (if xs = [] then y else join sep xs @ sep @ y)"
  by (induction sep xs rule: join.induct) auto

lemma generate_alias_content_wrap:
  "generate_alias_content mgr = wrap (markers mgr) (alias_body mgr)"
proof -
  let ?inner = "[''# Aliases for local helper scripts'', ''# Generated automatically by setup.py'', []]
      @ map (alias_line mgr) (aliases mgr) @ [[]]"
  have "generate_alias_content mgr
      = join ''\<newline>'' (start_marker (markers mgr) # (?inner @ [end_marker (markers mgr)]))"
    by (simp add: generate_alias_content_def)
  also have "\<dots> = start_marker (markers mgr) @ ''\<newline>'' @ join ''\<newline>'' (?inner @ [end_marker (markers mgr)])"
    by (subst join_Cons) simp
  also have "join ''\<newline>'' (?inner @ [end_marker (markers mgr)])
      = join ''\<newline>'' ?inner @ ''\<newline>'' @ end_marker (markers mgr)"
    by (subst join_snoc) simp
  finally show ?thesis by (simp add: wrap_def alias_body_def)
qed

lemma update_shell_config_merge:
  "update_shell_config mgr (Some d) = (d, merge (read_text d) (alias_body mgr) (markers mgr))"
  by (simp add: update_shell_config_def merge_def generate_alias_content_wrap)

lemma update_shell_config_new_file:
  "update_shell_config mgr None = ([], merge [] (alias_body mgr) (markers mgr))"
  by (simp add: update_shell_config_def merge_def generate_alias_content_wrap)

lemma new_content_Nil: "new_content m [] = []"
  using new_content_eq [of m "[]"] by (auto simp: strip_Nil)

lemma contains_drop:
  "k \<le> length x \<Longrightarrow> contains e (drop k (x @ e @ y))"
proof -
  assume "k \<le> length x"
  then have "drop k (x @ e @ y) = drop k x @ e @ y" by simp
  then show ?thesis unfolding contains_iff by blast
qed

text \<open>
  The first match of the pattern begins at the first occurrence of the start marker and
  ends with the nearest end marker that begins behind that occurrence.
\<close>

lemma search_eq_lazy:
  "search m s =
     (case lazy_until (start_marker m) s of
        None \<Rightarrow> None
      | Some (p, rest) \<Rightarrow>
          map_option (\<lambda>(b, r). (p, start_marker m @ b @ end_marker m, r))
            (lazy_until (end_marker m) rest))"
proof (induction s)
  case Nil
  then show ?case by (simp add: match_at_def startswith_Nil)
next
  case (Cons c cs)
  let ?st = "start_marker m" and ?e = "end_marker m"
  show ?case
  proof (cases "startswith (c # cs) ?st")
    case True
    show ?thesis
    proof (cases "lazy_until ?e (drop (length ?st) (c # cs))")
      case None
      have "search m cs = None"
      proof (rule ccontr)
        assume "search m cs \<noteq> None"
        then obtain a b c' where "cs = a @ ?st @ b @ ?e @ c'"
          using search_Some_iff [of m cs] by blast
        then have "c # cs = (c # a @ ?st @ b) @ ?e @ c'" by simp
        moreover have "length ?st \<le> length (c # a @ ?st @ b)" by simp
        ultimately have "contains ?e (drop (length ?st) (c # cs))"
          using contains_drop by metis
        with None show False by (simp add: lazy_until_None_iff)
      qed
      moreover from True None have "match_at m (c # cs) = None"
        by (simp add: match_at_def)
      ultimately show ?thesis using True None by simp
    next
      case (Some a)
      with True show ?thesis by (simp add: match_at_def split_def)
    qed
  next
    case False
    then have "match_at m (c # cs) = None" by (simp add: match_at_def)
    with False Cons show ?thesis
      by (auto simp: option.map_comp comp_def split_def split: option.splits)
  qed
qed

lemma startswith_shorter:
  "startswith (a @ b) s \<Longrightarrow> length s \<le> length a \<Longrightarrow> startswith a s"
  unfolding startswith_prefix
  by (metis prefix_length_prefix prefixI)

lemma lazy_until_first:
  assumes "s \<noteq> []" and "\<not> contains s (p @ butlast s)"
  shows "lazy_until s (p @ s @ r) = Some (p, r)"
  using assms(2)
proof (induction p)
  case Nil
  then show ?case by (simp add: lazy_until_self)
next
  case (Cons x p)
  have "\<not> startswith (x # p @ s @ r) s"
  proof
    assume st: "startswith (x # p @ s @ r) s"
    have "x # p @ s @ r = ((x # p) @ butlast s) @ (last s # r)"
      using assms(1) by simp
    moreover have "length s \<le> length ((x # p) @ butlast s)" by simp
    ultimately have "startswith ((x # p) @ butlast s) s"
      using st startswith_shorter by metis
    then have "contains s ((x # p) @ butlast s)" by simp
    with Cons.prems show False by simp
  qed
  moreover from Cons.prems have "\<not> contains s (p @ butlast s)" by simp
  ultimately show ?case using Cons.IH by simp
qed

lemma search_strip_None: "search m d = None \<Longrightarrow> search m (strip d) = None"
proof (rule ccontr)
  assume none: "search m d = None" and "search m (strip d) \<noteq> None"
  then obtain a b c where s: "strip d = a @ start_marker m @ b @ end_marker m @ c"
    using search_Some_iff [of m "strip d"] by blast
  obtain u v where "d = u @ strip d @ v" using strip_decomp [of d] by blast
  with s have "d = (u @ a) @ start_marker m @ b @ end_marker m @ (c @ v)" by simp
  then have "search m d \<noteq> None" using search_Some_iff [of m d] by blast
  with none show False by simp
qed

lemma merge_Nil: "merge [] g m = wrap m g"
  by (simp add: merge_def strip_Nil merge_section_eq new_content_Nil)

lemma new_content_no_match: "search m c = None \<Longrightarrow> new_content m c = c"
  by (simp add: new_content_def find_existing_section_def)

lemma sub_empty_no_markers:
  "start_marker m = [] \<Longrightarrow> end_marker m = [] \<Longrightarrow> sub_empty m s = []"
proof (induction s)
  case Nil
  then show ?case by simp
next
  case (Cons c cs)
  then have "match_at m (c # cs) = Some ([], c # cs)"
    by (simp add: match_at_def)
  with Cons show ?case by simp
qed

lemma search_no_markers:
  "start_marker m = [] \<Longrightarrow> end_marker m = [] \<Longrightarrow> search m s \<noteq> None"
proof -
  assume "start_marker m = []" and "end_marker m = []"
  then have "s = [] @ start_marker m @ [] @ end_marker m @ s" by simp
  then show ?thesis using search_Some_iff [of m s] by blast
qed

lemma occurrences_contains: "occurrences p s = 0 \<longleftrightarrow> \<not> contains p s"
  by (induction s) auto

lemma occurrences_append_ge: "occurrences p t \<le> occurrences p (a @ t)"
  by (induction a) auto

lemma occurrences_twice:
  assumes "p \<noteq> []"
  shows "2 \<le> occurrences p (a @ p @ b @ p @ c)"
proof -
  obtain x p' where p: "p = x # p'" using assms by (cases p) auto
  have "contains p (p' @ b @ p @ c)"
    using contains_appendI [where p = p and s = p and a = "p' @ b" and b = c, OF contains_self]
    by simp
  then have "1 \<le> occurrences p (p' @ b @ p @ c)"
    using occurrences_contains [of p "p' @ b @ p @ c"] by simp
  moreover have "startswith (x # p' @ b @ p @ c) p"
    using startswith_append [of p "b @ p @ c"] by (simp add: p)
  ultimately have "2 \<le> occurrences p (x # p' @ b @ p @ c)" by simp
  then have "2 \<le> occurrences p (p @ b @ p @ c)" by (simp add: p)
  then show ?thesis
    using occurrences_append_ge [of p "p @ b @ p @ c" a] by simp
qed

lemma kept_eq: "new_content m (strip d) = strip (sub_empty m (strip d))"
  by (simp add: new_content_stripped strip_idem)

lemma merge_eq:
  "merge d g m =
     (if new_content m (strip d) = [] then wrap m g
      else new_content m (strip d) @ ''\<newline>\<newline>'' @ wrap m g)"
  by (simp add: merge_def merge_section_eq)

lemma search_merge_Some: "search m (merge d g m) \<noteq> None"
proof -
  obtain pre where "merge d g m = pre @ wrap m g"
    using merge_eq [of d g m] by (cases "new_content m (strip d) = []") auto
  then have "merge d g m = pre @ start_marker m @ (CHR ''\<newline>'' # g @ ''\<newline>'') @ end_marker m @ []"
    by (simp add: wrap_def)
  then show ?thesis using search_Some_iff [of m "merge d g m"] by blast
qed

lemma search_merge_clean:
  assumes "plain_marker (start_marker m)" and "plain_marker (end_marker m)"
    and "\<not> contains (start_marker m) (new_content m (strip d))"
    and "\<not> contains (end_marker m) g"
  shows "search m (merge d g m)
    = Some (if new_content m (strip d) = [] then [] else new_content m (strip d) @ ''\<newline>\<newline>'',
            wrap m g, [])"
proof (cases "new_content m (strip d) = []")
  case True
  then show ?thesis
    using search_wrap [of m g] assms by (simp add: merge_eq plain_marker_def)
next
  case False
  then show ?thesis
    using search_kept_wrap [of m "new_content m (strip d)" g] assms
    by (simp add: merge_eq plain_marker_def)
qed

lemma sub_empty_merge_clean:
  assumes "plain_marker (start_marker m)" and "plain_marker (end_marker m)"
    and "\<not> contains (start_marker m) (new_content m (strip d))"
    and "\<not> contains (end_marker m) g"
  shows "sub_empty m (merge d g m)
    = (if new_content m (strip d) = [] then [] else new_content m (strip d) @ ''\<newline>\<newline>'')"
  using search_Some_sub [OF search_merge_clean [OF assms] wrap_not_Nil] by simp

lemma contains_kept_sep:
  assumes "p \<noteq> []" and "CHR ''\<newline>'' \<notin> set p"
  shows "contains p (K @ ''\<newline>\<newline>'') \<longleftrightarrow> contains p K"
proof -
  have "contains p ([] @ CHR ''\<newline>'' # []) \<longleftrightarrow> False"
    using contains_sep [OF assms(2,1), of "[]" "[]"] assms(1) by simp
  then show ?thesis
    using contains_sep [OF assms(2,1), of K "''\<newline>''"] by simp
qed

lemma subseq_strip: "subseq (strip s) s"
proof -
  obtain a b where "s = a @ strip s @ b" using strip_decomp [of s] by blast
  then have "sublist (strip s) s" unfolding sublist_def by blast
  then show ?thesis by (rule sublist_imp_subseq)
qed

lemma subseq_sub_empty: "subseq (sub_empty m s) s"
proof (induction "length s" arbitrary: s rule: less_induct)
  case less
  show ?case
  proof (cases s)
    case Nil
    then show ?thesis by simp
  next
    case (Cons c cs)
    have tail: "subseq (sub_empty m cs) cs" using less [of cs] Cons by simp
    show ?thesis
    proof (cases "match_at m (c # cs)")
      case None
      with tail show ?thesis by (simp add: Cons)
    next
      case (Some a)
      obtain mt r where a: "a = (mt, r)" by (cases a)
      show ?thesis
      proof (cases "mt = []")
        case True
        from tail have "subseq (sub_empty m cs) (c # cs)" by (rule list_emb_Cons)
        with Some a True show ?thesis by (simp add: Cons)
      next
        case False
        have eq: "c # cs = mt @ r" using Some a by (simp add: match_at_decomp)
        with False have "length r < length s"
          by (metis Cons length_append length_greater_0_conv less_add_same_cancel2)
        then have "subseq (sub_empty m r) r" by (rule less)
        then have "subseq (sub_empty m r) (mt @ r)" by (rule list_emb_append2)
        then have "subseq (sub_empty m r) (c # cs)" unfolding eq .
        moreover have "sub_empty m (c # cs) = sub_empty m r" using Some a False by simp
        ultimately show ?thesis unfolding Cons by simp
      qed
    qed
  qed
qed

lemma subseq_kept: "subseq (new_content m (strip d)) d"
proof -
  have "subseq (strip (sub_empty m (strip d))) (sub_empty m (strip d))" by (rule subseq_strip)
  also have "subseq (sub_empty m (strip d)) (strip d)" by (rule subseq_sub_empty)
  also have "subseq (strip d) d" by (rule subseq_strip)
  finally show ?thesis by (simp add: kept_eq)
qed

text \<open>The defining equations that evaluate a merge on a given text.\<close>

lemmas merge_eval =
  merge_def merge_section_def new_content_def find_existing_section_def
  remove_existing_section_def match_at_def shipped_markers_def wrap_def
  strip_def lstrip_def rstrip_def isspace_def






lemma strip_decomp_all:
  "\<exists>a b. s = a @ strip s @ b \<and> list_all isspace a \<and> list_all isspace b"
  using strip_decomp [of s] by (auto simp: list_all_iff)

lemma sub_empty_law:
  "sub_empty m s =
     (case search m s of None \<Rightarrow> s
      | Some (p, mt, r) \<Rightarrow> if mt = [] then [] else p @ sub_empty m r)"
proof (cases "search m s")
  case None
  then show ?thesis by (simp add: search_None_sub)
next
  case (Some a)
  then obtain p mt r where a: "search m s = Some (p, mt, r)" by (cases a) auto
  show ?thesis
  proof (cases "mt = []")
    case True
    with search_decomp [OF a] have "start_marker m = []" and "end_marker m = []" by auto
    then have "sub_empty m s = []" by (rule sub_empty_no_markers)
    with a True show ?thesis by simp
  next
    case False
    with a show ?thesis by (simp add: search_Some_sub)
  qed
qed

lemma search_first_block:
  assumes "start_marker m \<noteq> []" and "\<not> contains (start_marker m) (u @ butlast (start_marker m))"
    and "end_marker m \<noteq> []" and "\<not> contains (end_marker m) (b @ butlast (end_marker m))"
  shows "search m (u @ start_marker m @ b @ end_marker m @ v)
    = Some (u, start_marker m @ b @ end_marker m, v)"
proof -
  have "lazy_until (start_marker m) (u @ start_marker m @ b @ end_marker m @ v)
      = Some (u, b @ end_marker m @ v)"
    using assms(1,2) by (rule lazy_until_first)
  moreover have "lazy_until (end_marker m) (b @ end_marker m @ v) = Some (b, v)"
    using assms(3,4) by (rule lazy_until_first)
  ultimately show ?thesis by (simp add: search_eq_lazy)
qed

lemma new_content_one_block:
  assumes "c = u @ start_marker m @ b @ end_marker m @ v"
    and "start_marker m \<noteq> []" and "\<not> contains (start_marker m) (u @ butlast (start_marker m))"
    and "end_marker m \<noteq> []" and "\<not> contains (end_marker m) (b @ butlast (end_marker m))"
    and "search m v = None"
  shows "new_content m c = strip (u @ v)"
proof -
  have s: "search m c = Some (u, start_marker m @ b @ end_marker m, v)"
    unfolding assms(1) using assms(2-5) by (rule search_first_block)
  then have "sub_empty m c = u @ sub_empty m v"
    using assms(2) by (simp add: search_Some_sub)
  then have "sub_empty m c = u @ v" using assms(6) by (simp add: search_None_sub)
  with s show ?thesis
    by (simp add: new_content_def find_existing_section_def remove_existing_section_def)
qed

section \<open>The claims\<close>

text \<open>
  Claim C1, as stated for every document and every marker pair, fails. A document with a
  single stray marker is kept whole by the first merge; the second merge then finds a
  section from the stray marker to the start of the block, removes it and leaves the
  body and the closing marker of the first block behind. A marker that ends in a space
  loses the space when the result is read back, so the block is not found again.
\<close>

theorem merge_idempotent_counterexample:
  "merge ''echo hi\<newline>## local-helpers'' ''alias ll=ls'' shipped_markers
     = ''echo hi\<newline>## local-helpers\<newline>\<newline>## local-helpers\<newline>alias ll=ls\<newline>## local-helpers''
   \<and> merge (merge ''echo hi\<newline>## local-helpers'' ''alias ll=ls'' shipped_markers)
       ''alias ll=ls'' shipped_markers
     = ''echo hi\<newline>\<newline>alias ll=ls\<newline>## local-helpers\<newline>\<newline>## local-helpers\<newline>alias ll=ls\<newline>## local-helpers''
   \<and> merge (merge [] ''alias ll=ls'' \<lparr>start_marker = ''## BEGIN'', end_marker = ''## END ''\<rparr>)
       ''alias ll=ls'' \<lparr>start_marker = ''## BEGIN'', end_marker = ''## END ''\<rparr>
     = ''## BEGIN\<newline>alias ll=ls\<newline>## END\<newline>\<newline>## BEGIN\<newline>alias ll=ls\<newline>## END ''"
  by (simp add: merge_eval)

text \<open>
  Claim C1, amended. The merge is idempotent for every document whose kept text (the
  trimmed text with the matched spans removed, \<open>new_content\<close>) does not contain the start
  marker, every body that does not contain the end marker, and every pair of markers that
  are non-empty, on one line and without whitespace at either end, as the shipped ones
  are.
\<close>

theorem merge_idempotent:
  assumes "plain_marker (start_marker m)" and "plain_marker (end_marker m)"
    and "\<not> contains (start_marker m) (new_content m (strip d))"
    and "\<not> contains (end_marker m) g"
  shows "merge (merge d g m) g m = merge d g m"
  using assms by (rule merge_merge)

theorem merge_idempotent_witness:
  "merge (merge ''export A=1\<newline>\<newline>## local-helpers\<newline>old\<newline>## local-helpers\<newline>''
            ''alias ll=ls'' shipped_markers) ''alias ll=ls'' shipped_markers
   = ''export A=1\<newline>\<newline>## local-helpers\<newline>alias ll=ls\<newline>## local-helpers''"
proof -
  let ?d = "''export A=1\<newline>\<newline>## local-helpers\<newline>old\<newline>## local-helpers\<newline>''"
  have "plain_marker (start_marker shipped_markers)" and "plain_marker (end_marker shipped_markers)"
    by (simp_all add: plain_marker_def shipped_markers_def isspace_def)
  moreover have "\<not> contains (start_marker shipped_markers) (new_content shipped_markers (strip ?d))"
    by (simp add: merge_eval)
  moreover have "\<not> contains (end_marker shipped_markers) ''alias ll=ls''"
    by (simp add: shipped_markers_def)
  ultimately have "merge (merge ?d ''alias ll=ls'' shipped_markers) ''alias ll=ls'' shipped_markers
      = merge ?d ''alias ll=ls'' shipped_markers"
    by (rule merge_idempotent)
  then show ?thesis by (simp add: merge_eval)
qed

text \<open>
  Claim C2, as stated, fails in both halves. A marker cut in two by a section is put
  together again when the section is removed, so the kept text can hold a section of its
  own and the result then has two. And the document is trimmed: a tab in front of the
  text is outside every section and does not appear in the result.
\<close>

theorem one_block_counterexample:
  "search shipped_markers
     (merge ''## local-## local-helpers## local-helpershelpers ## local-helpers'' ''g'' shipped_markers)
     = Some ([], ''## local-helpers ## local-helpers'',
             ''\<newline>\<newline>## local-helpers\<newline>g\<newline>## local-helpers'')
   \<and> search shipped_markers ''\<newline>\<newline>## local-helpers\<newline>g\<newline>## local-helpers''
     = Some (''\<newline>\<newline>'', ''## local-helpers\<newline>g\<newline>## local-helpers'', [])
   \<and> sub_empty shipped_markers [CHR 0x09, CHR ''x''] = [CHR 0x09, CHR ''x'']
   \<and> merge [CHR 0x09, CHR ''x''] ''g'' shipped_markers
     = ''x\<newline>\<newline>## local-helpers\<newline>g\<newline>## local-helpers''"
  by (simp add: merge_eval)

text \<open>
  Claim C2, amended. After every merge the result is the kept text, then, if the kept
  text is not empty, the blank-line separator, then the new wrapped block. The kept text
  is the trimmed document with every matched span removed, trimmed again: where no
  section is found the text is kept as it is, and otherwise the text before the first
  matched span is kept and the removal goes on behind the span; trimming removes
  whitespace at the two ends and nothing else. So the result always contains a section,
  and the characters of the original document outside the removed spans, but for the
  whitespace trimmed at either end, stand in their original order at the front of the
  result: when the trimmed document is a text \<open>u\<close>, its first section and a text \<open>v\<close>
  in which no section is found, the kept text is \<open>u\<close> followed by \<open>v\<close>, trimmed. The
  result contains
  exactly one section (the new block, found first and with nothing behind it) when the
  kept text does not contain the start marker, the body does not contain the end marker
  and the markers are non-empty, on one line and without whitespace at either end.
\<close>

theorem merge_result_shape:
  "new_content m (strip d) = strip (sub_empty m (strip d))
   \<and> sub_empty m s =
       (case search m s of None \<Rightarrow> s
        | Some (p, mt, r) \<Rightarrow> if mt = [] then [] else p @ sub_empty m r)
   \<and> (\<exists>a b. d = a @ strip d @ b \<and> list_all isspace a \<and> list_all isspace b)
   \<and> (\<exists>a b. sub_empty m (strip d) = a @ new_content m (strip d) @ b
          \<and> list_all isspace a \<and> list_all isspace b)
   \<and> subseq (new_content m (strip d)) d
   \<and> merge d g m = (if new_content m (strip d) = [] then wrap m g
                    else new_content m (strip d) @ ''\<newline>\<newline>'' @ wrap m g)
   \<and> prefix (new_content m (strip d)) (merge d g m)
   \<and> search m (merge d g m) \<noteq> None
   \<and> (strip d = u @ start_marker m @ b @ end_marker m @ v
        \<and> start_marker m \<noteq> [] \<and> \<not> contains (start_marker m) (u @ butlast (start_marker m))
        \<and> end_marker m \<noteq> [] \<and> \<not> contains (end_marker m) (b @ butlast (end_marker m))
        \<and> search m v = None
      \<longrightarrow> new_content m (strip d) = strip (u @ v))
   \<and> (plain_marker (start_marker m) \<and> plain_marker (end_marker m)
        \<and> \<not> contains (start_marker m) (new_content m (strip d))
        \<and> \<not> contains (end_marker m) g
      \<longrightarrow> search m (merge d g m)
          = Some (if new_content m (strip d) = [] then []
                  else new_content m (strip d) @ ''\<newline>\<newline>'', wrap m g, []))"
proof -
  have 1: "new_content m (strip d) = strip (sub_empty m (strip d))" by (rule kept_eq)
  have 4: "\<exists>a b. sub_empty m (strip d) = a @ new_content m (strip d) @ b
      \<and> list_all isspace a \<and> list_all isspace b"
    unfolding 1 by (rule strip_decomp_all)
  have 7: "prefix (new_content m (strip d)) (merge d g m)"
    by (simp add: merge_eq)
  have 9: "strip d = u @ start_marker m @ b @ end_marker m @ v
        \<and> start_marker m \<noteq> [] \<and> \<not> contains (start_marker m) (u @ butlast (start_marker m))
        \<and> end_marker m \<noteq> [] \<and> \<not> contains (end_marker m) (b @ butlast (end_marker m))
        \<and> search m v = None
      \<longrightarrow> new_content m (strip d) = strip (u @ v)"
    using new_content_one_block [of "strip d" u m b v] by blast
  have 10: "plain_marker (start_marker m) \<and> plain_marker (end_marker m)
        \<and> \<not> contains (start_marker m) (new_content m (strip d))
        \<and> \<not> contains (end_marker m) g
      \<longrightarrow> search m (merge d g m)
          = Some (if new_content m (strip d) = [] then []
                  else new_content m (strip d) @ ''\<newline>\<newline>'', wrap m g, [])"
    using search_merge_clean [of m d g] by blast
  show ?thesis
    using 1 sub_empty_law [of m s] strip_decomp_all [of d] 4 subseq_kept [of m d]
      merge_eq [of d g m] 7 search_merge_Some [of m d g] 9 10
    by (intro conjI)
qed

theorem merge_result_shape_witness:
  "merge ''  export A=1\<newline>## local-helpers\<newline>old\<newline>## local-helpers\<newline>export B=2\<newline>''
     ''alias ll=ls'' shipped_markers
   = ''export A=1\<newline>\<newline>export B=2\<newline>\<newline>## local-helpers\<newline>alias ll=ls\<newline>## local-helpers''
   \<and> new_content shipped_markers
       (strip ''  export A=1\<newline>## local-helpers\<newline>old\<newline>## local-helpers\<newline>export B=2\<newline>'')
     = strip (''export A=1\<newline>'' @ ''\<newline>export B=2'')
   \<and> search shipped_markers
     (merge ''  export A=1\<newline>## local-helpers\<newline>old\<newline>## local-helpers\<newline>export B=2\<newline>''
        ''alias ll=ls'' shipped_markers)
   = Some (''export A=1\<newline>\<newline>export B=2\<newline>\<newline>'',
           ''## local-helpers\<newline>alias ll=ls\<newline>## local-helpers'', [])"
proof -
  let ?d = "''  export A=1\<newline>## local-helpers\<newline>old\<newline>## local-helpers\<newline>export B=2\<newline>''"
  note shape = merge_result_shape [of shipped_markers ?d "[]" "''alias ll=ls''"
      "''export A=1\<newline>''" "''\<newline>old\<newline>''" "''\<newline>export B=2''"]
  have "strip ?d = ''export A=1\<newline>'' @ start_marker shipped_markers @ ''\<newline>old\<newline>''
      @ end_marker shipped_markers @ ''\<newline>export B=2''"
    by (simp add: merge_eval)
  moreover have "start_marker shipped_markers \<noteq> []" and "end_marker shipped_markers \<noteq> []"
    by (simp_all add: shipped_markers_def)
  moreover have "\<not> contains (start_marker shipped_markers)
      (''export A=1\<newline>'' @ butlast (start_marker shipped_markers))"
    and "\<not> contains (end_marker shipped_markers)
      (''\<newline>old\<newline>'' @ butlast (end_marker shipped_markers))"
    by (simp_all add: shipped_markers_def)
  moreover have "search shipped_markers ''\<newline>export B=2'' = None"
    by (simp add: merge_eval)
  ultimately have k: "new_content shipped_markers (strip ?d)
      = strip (''export A=1\<newline>'' @ ''\<newline>export B=2'')"
    using shape by blast
  have "plain_marker (start_marker shipped_markers)" and "plain_marker (end_marker shipped_markers)"
    by (simp_all add: plain_marker_def shipped_markers_def isspace_def)
  moreover have "\<not> contains (start_marker shipped_markers) (new_content shipped_markers (strip ?d))"
    unfolding k by (simp add: merge_eval)
  moreover have "\<not> contains (end_marker shipped_markers) ''alias ll=ls''"
    by (simp add: shipped_markers_def)
  ultimately have "search shipped_markers (merge ?d ''alias ll=ls'' shipped_markers)
      = Some (if new_content shipped_markers (strip ?d) = [] then []
              else new_content shipped_markers (strip ?d) @ ''\<newline>\<newline>'',
              wrap shipped_markers ''alias ll=ls'', [])"
    using shape by blast
  with k show ?thesis by (simp add: merge_eval)
qed

text \<open>
  Claim C3, as stated, fails: \<open>pattern.sub\<close> is called without a count and replaces every
  match. In a document with two sections both are removed, and nothing of the second is
  left in the result.
\<close>

theorem first_span_only_counterexample:
  "search shipped_markers
     ''## local-helpers\<newline>a\<newline>## local-helpers\<newline>keep\<newline>## local-helpers\<newline>b\<newline>## local-helpers''
     = Some ([], ''## local-helpers\<newline>a\<newline>## local-helpers'',
             ''\<newline>keep\<newline>## local-helpers\<newline>b\<newline>## local-helpers'')
   \<and> search shipped_markers ''\<newline>keep\<newline>## local-helpers\<newline>b\<newline>## local-helpers''
     = Some (''\<newline>keep\<newline>'', ''## local-helpers\<newline>b\<newline>## local-helpers'', [])
   \<and> remove_existing_section shipped_markers
     ''## local-helpers\<newline>a\<newline>## local-helpers\<newline>keep\<newline>## local-helpers\<newline>b\<newline>## local-helpers''
     = ''keep''
   \<and> merge
     ''## local-helpers\<newline>a\<newline>## local-helpers\<newline>keep\<newline>## local-helpers\<newline>b\<newline>## local-helpers''
     ''g'' shipped_markers
     = ''keep\<newline>\<newline>## local-helpers\<newline>g\<newline>## local-helpers''"
  by (simp add: merge_def merge_section_def new_content_def find_existing_section_def
      remove_existing_section_def match_at_def shipped_markers_def wrap_def
      strip_def lstrip_def rstrip_def isspace_def)

text \<open>
  Claim C3, amended. The merge removes every span that the scan from left to right
  matches, not only the first: where no section is found the text is kept as it is, and
  otherwise the first matched span is dropped and the removal goes on in the same way in
  the text behind it. (The markers are not both empty.)
\<close>

theorem every_span_removed:
  assumes "start_marker m \<noteq> [] \<or> end_marker m \<noteq> []"
  shows "remove_existing_section m s = strip (sub_empty m s)
    \<and> sub_empty m s = (case search m s of None \<Rightarrow> s | Some (p, mt, r) \<Rightarrow> p @ sub_empty m r)"
proof (cases "search m s")
  case None
  then show ?thesis by (simp add: remove_existing_section_def search_None_sub)
next
  case (Some a)
  then obtain p mt r where a: "search m s = Some (p, mt, r)" by (cases a) auto
  from search_decomp [OF a] assms have "mt \<noteq> []" by auto
  with a show ?thesis by (simp add: remove_existing_section_def search_Some_sub)
qed

theorem every_span_removed_witness:
  "remove_existing_section \<lparr>start_marker = ''B'', end_marker = ''E''\<rparr> ''xBaEyBbEz'' = ''xyz''"
  using every_span_removed [of "\<lparr>start_marker = ''B'', end_marker = ''E''\<rparr>" "''xBaEyBbEz''"]
  by (simp add: match_at_def strip_def lstrip_def rstrip_def isspace_def)

text \<open>
  Claim C4, as stated, fails: the text of the file is trimmed before the search (line
  137), also when no section is found. A tab in front of the document and a line break
  at its end are deleted, and the document is not a prefix of the result.
\<close>

theorem unmatched_start_counterexample:
  "contains ''## BEGIN'' (CHR 0x09 # ''x ## BEGIN y\<newline>'')
   \<and> \<not> contains ''## END'' (CHR 0x09 # ''x ## BEGIN y\<newline>'')
   \<and> find_existing_section \<lparr>start_marker = ''## BEGIN'', end_marker = ''## END''\<rparr>
       (CHR 0x09 # ''x ## BEGIN y\<newline>'') = None
   \<and> merge (CHR 0x09 # ''x ## BEGIN y\<newline>'') ''g''
       \<lparr>start_marker = ''## BEGIN'', end_marker = ''## END''\<rparr>
     = ''x ## BEGIN y\<newline>\<newline>## BEGIN\<newline>g\<newline>## END''
   \<and> \<not> startswith
       (merge (CHR 0x09 # ''x ## BEGIN y\<newline>'') ''g''
          \<lparr>start_marker = ''## BEGIN'', end_marker = ''## END''\<rparr>)
       (CHR 0x09 # ''x ## BEGIN y\<newline>'')"
  by (simp add: merge_eval)

text \<open>
  Claim C4, amended. If the start marker occurs in the document, first behind \<open>p\<close>, and
  no end marker occurs behind that first occurrence, then no section is found, neither
  in the document nor in its trimmed text, and nothing is deleted from the document but
  the whitespace at its two ends: the result is the trimmed document, the blank-line
  separator and the new wrapped block (the block alone when the trimmed document is
  empty), and the text behind the unmatched start marker is not cut off. A document
  without whitespace at its ends is kept as it is.
\<close>

theorem unmatched_start_is_absent:
  assumes "start_marker m \<noteq> []"
    and "d = p @ start_marker m @ r"
    and "\<not> contains (start_marker m) (p @ butlast (start_marker m))"
    and "\<not> contains (end_marker m) r"
  shows "find_existing_section m d = None
    \<and> find_existing_section m (strip d) = None
    \<and> new_content m (strip d) = strip d
    \<and> (\<exists>a b. d = a @ strip d @ b \<and> list_all isspace a \<and> list_all isspace b)
    \<and> merge d g m = (if strip d = [] then wrap m g
                     else strip d @ ''\<newline>\<newline>'' @ wrap m g)
    \<and> (strip d = d \<longrightarrow> merge d g m = d @ ''\<newline>\<newline>'' @ wrap m g)"
proof -
  have "lazy_until (start_marker m) d = Some (p, r)"
    unfolding assms(2) using assms(1,3) by (rule lazy_until_first)
  moreover have "lazy_until (end_marker m) r = None"
    using assms(4) by (simp add: lazy_until_None_iff)
  ultimately have none: "search m d = None" by (simp add: search_eq_lazy)
  then have none': "search m (strip d) = None" by (rule search_strip_None)
  then have kept: "new_content m (strip d) = strip d" by (rule new_content_no_match)
  have ne: "d \<noteq> []" using assms(1,2) by simp
  have m: "merge d g m = (if strip d = [] then wrap m g
                     else strip d @ ''\<newline>\<newline>'' @ wrap m g)"
    using kept by (simp add: merge_eq)
  then have "strip d = d \<longrightarrow> merge d g m = d @ ''\<newline>\<newline>'' @ wrap m g"
    using ne by simp
  with none none' kept m strip_decomp_all [of d] show ?thesis
    by (simp add: find_existing_section_def)
qed

theorem unmatched_start_is_absent_witness:
  "merge ''  export A=1\<newline>## BEGIN\<newline>alias x=y\<newline>'' ''alias ll=ls''
     \<lparr>start_marker = ''## BEGIN'', end_marker = ''## END''\<rparr>
   = ''export A=1\<newline>## BEGIN\<newline>alias x=y\<newline>\<newline>## BEGIN\<newline>alias ll=ls\<newline>## END''"
proof -
  let ?m = "\<lparr>start_marker = ''## BEGIN'', end_marker = ''## END''\<rparr>"
  have "start_marker ?m \<noteq> []" by simp
  moreover have "''  export A=1\<newline>## BEGIN\<newline>alias x=y\<newline>''
      = ''  export A=1\<newline>'' @ start_marker ?m @ ''\<newline>alias x=y\<newline>''" by simp
  moreover have "\<not> contains (start_marker ?m) (''  export A=1\<newline>'' @ butlast (start_marker ?m))"
    by simp
  moreover have "\<not> contains (end_marker ?m) ''\<newline>alias x=y\<newline>''" by simp
  ultimately have "merge ''  export A=1\<newline>## BEGIN\<newline>alias x=y\<newline>'' ''alias ll=ls'' ?m
      = (if strip ''  export A=1\<newline>## BEGIN\<newline>alias x=y\<newline>'' = [] then wrap ?m ''alias ll=ls''
         else strip ''  export A=1\<newline>## BEGIN\<newline>alias x=y\<newline>'' @ ''\<newline>\<newline>''
              @ wrap ?m ''alias ll=ls'')"
    using unmatched_start_is_absent [of ?m "''  export A=1\<newline>## BEGIN\<newline>alias x=y\<newline>''"
        "''  export A=1\<newline>''" "''\<newline>alias x=y\<newline>''" "''alias ll=ls''"]
    by blast
  then show ?thesis by (simp add: merge_eval)
qed

text \<open>
  Claim C5, as stated, fails. A partial marker is a marker left over once the complete
  sections, as the scan finds them, are taken out of the text. With one stray marker in
  the document the result holds three markers: the scan pairs the stray marker with the
  opening marker of the new block, and the closing marker of the new block is left over.
\<close>

theorem no_partial_marker_counterexample:
  "merge ''# ## local-helpers (old)'' ''g'' shipped_markers
     = ''# ## local-helpers (old)\<newline>\<newline>## local-helpers\<newline>g\<newline>## local-helpers''
   \<and> occurrences ''## local-helpers'' (merge ''# ## local-helpers (old)'' ''g'' shipped_markers) = 3
   \<and> sub_empty shipped_markers (merge ''# ## local-helpers (old)'' ''g'' shipped_markers)
     = ''# \<newline>g\<newline>## local-helpers''
   \<and> contains (start_marker shipped_markers)
       (sub_empty shipped_markers (merge ''# ## local-helpers (old)'' ''g'' shipped_markers))"
  by (simp add: merge_eval)

text \<open>
  Claim C5, amended. When the kept text of the document contains neither marker, the body
  does not contain the end marker and the markers are non-empty, on one line and without
  whitespace at either end, the result is the kept text (with its separator) followed by
  the wrapped block, the wrapped block is the one section the scan finds, and what is
  left once it is taken out contains neither marker.
\<close>

theorem no_partial_marker:
  assumes "plain_marker (start_marker m)" and "plain_marker (end_marker m)"
    and "\<not> contains (start_marker m) (new_content m (strip d))"
    and "\<not> contains (end_marker m) (new_content m (strip d))"
    and "\<not> contains (end_marker m) g"
  shows "merge d g m = sub_empty m (merge d g m) @ wrap m g
    \<and> search m (merge d g m) = Some (sub_empty m (merge d g m), wrap m g, [])
    \<and> \<not> contains (start_marker m) (sub_empty m (merge d g m))
    \<and> \<not> contains (end_marker m) (sub_empty m (merge d g m))"
proof -
  let ?K = "new_content m (strip d)"
  have se: "sub_empty m (merge d g m) = (if ?K = [] then [] else ?K @ ''\<newline>\<newline>'')"
    using assms(1,2,3,5) by (rule sub_empty_merge_clean)
  have "merge d g m = sub_empty m (merge d g m) @ wrap m g"
    unfolding se by (simp add: merge_eq)
  moreover have "search m (merge d g m) = Some (sub_empty m (merge d g m), wrap m g, [])"
    unfolding se using assms(1,2,3,5) by (rule search_merge_clean)
  moreover have "\<not> contains (start_marker m) (sub_empty m (merge d g m))"
    unfolding se using assms(1,3) contains_kept_sep [of "start_marker m" ?K]
    by (simp add: plain_marker_def)
  moreover have "\<not> contains (end_marker m) (sub_empty m (merge d g m))"
    unfolding se using assms(2,4) contains_kept_sep [of "end_marker m" ?K]
    by (simp add: plain_marker_def)
  ultimately show ?thesis by blast
qed

theorem no_partial_marker_witness:
  "sub_empty shipped_markers
     (merge ''export A=1\<newline>\<newline>## local-helpers\<newline>old\<newline>## local-helpers\<newline>''
        ''alias ll=ls'' shipped_markers)
   = ''export A=1\<newline>\<newline>''
   \<and> \<not> contains ''## local-helpers'' ''export A=1\<newline>\<newline>''"
proof -
  let ?d = "''export A=1\<newline>\<newline>## local-helpers\<newline>old\<newline>## local-helpers\<newline>''"
  have k: "new_content shipped_markers (strip ?d) = ''export A=1''"
    by (simp add: merge_eval)
  have "plain_marker (start_marker shipped_markers)" and "plain_marker (end_marker shipped_markers)"
    by (simp_all add: plain_marker_def shipped_markers_def isspace_def)
  moreover have "\<not> contains (start_marker shipped_markers) (new_content shipped_markers (strip ?d))"
    and "\<not> contains (end_marker shipped_markers) (new_content shipped_markers (strip ?d))"
    unfolding k by (simp_all add: shipped_markers_def)
  moreover have "\<not> contains (end_marker shipped_markers) ''alias ll=ls''"
    by (simp add: shipped_markers_def)
  ultimately have "merge ?d ''alias ll=ls'' shipped_markers
      = sub_empty shipped_markers (merge ?d ''alias ll=ls'' shipped_markers)
        @ wrap shipped_markers ''alias ll=ls''
    \<and> search shipped_markers (merge ?d ''alias ll=ls'' shipped_markers)
      = Some (sub_empty shipped_markers (merge ?d ''alias ll=ls'' shipped_markers),
              wrap shipped_markers ''alias ll=ls'', [])
    \<and> \<not> contains (start_marker shipped_markers)
        (sub_empty shipped_markers (merge ?d ''alias ll=ls'' shipped_markers))
    \<and> \<not> contains (end_marker shipped_markers)
        (sub_empty shipped_markers (merge ?d ''alias ll=ls'' shipped_markers))"
    by (rule no_partial_marker)
  then show ?thesis by (simp add: merge_eval)
qed




text \<open>
  Claim C7, as stated, fails on the empty document (and on every document of whitespace
  only): no separator precedes the block there.
\<close>

theorem merge_without_block_counterexample:
  "find_existing_section shipped_markers [] = None
   \<and> merge [] ''alias ll=ls'' shipped_markers
       \<noteq> strip [] @ ''\<newline>\<newline>'' @ wrap shipped_markers ''alias ll=ls''"
  by (simp add: merge_Nil find_existing_section_def match_at_def shipped_markers_def wrap_def
      strip_Nil)

text \<open>
  Claim C7, amended. For every document in which no section is found (by
  \<open>search_None_iff\<close>: the document is nowhere a start marker, some text and an end marker)
  and whose trimmed content is not empty, the result is the trimmed content, the blank-line separator and
  the wrapped block; when the trimmed content is empty, the result is the wrapped block
  alone. In both cases the trimmed content is a prefix of the result.
\<close>

theorem merge_without_block:
  assumes "find_existing_section m d = None"
  shows "merge d g m = (if strip d = [] then wrap m g else strip d @ ''\<newline>\<newline>'' @ wrap m g)
    \<and> prefix (strip d) (merge d g m)"
proof -
  have "search m (strip d) = None"
    using assms by (simp add: find_existing_section_def search_strip_None)
  then have "new_content m (strip d) = strip d" by (rule new_content_no_match)
  then show ?thesis by (simp add: merge_def merge_section_eq)
qed

theorem merge_without_block_witness:
  "find_existing_section shipped_markers ''  export PATH=/usr/bin\<newline>'' = None
   \<and> merge ''  export PATH=/usr/bin\<newline>'' ''alias ll=ls'' shipped_markers
       = ''export PATH=/usr/bin\<newline>\<newline>## local-helpers\<newline>alias ll=ls\<newline>## local-helpers''"
proof -
  have none: "find_existing_section shipped_markers ''  export PATH=/usr/bin\<newline>'' = None"
    by (simp add: find_existing_section_def match_at_def shipped_markers_def)
  have "strip ''  export PATH=/usr/bin\<newline>'' = ''export PATH=/usr/bin''"
    by (simp add: strip_def lstrip_def rstrip_def isspace_def)
  with merge_without_block [OF none, of "''alias ll=ls''"] none show ?thesis
    by (simp add: wrap_def shipped_markers_def)
qed

text \<open>
  Claim C8, as stated, fails: nothing on the path of the merge raises, and the markers are
  not checked. With both markers empty the merge returns a text.
\<close>

theorem empty_markers_counterexample:
  "merge ''export PATH=/usr/bin'' ''alias ll=ls'' \<lparr>start_marker = [], end_marker = []\<rparr>
     = ''\<newline>alias ll=ls\<newline>''"
  by (simp add: merge_def merge_section_eq new_content_def find_existing_section_def
      search_no_markers remove_existing_section_def sub_empty_no_markers strip_Nil wrap_def)

text \<open>
  Claim C8, amended. The merge raises no error and does not check the markers: both are
  non-empty because the constructor sets them to the literal \<open>## local-helpers\<close>. Given
  two empty markers the merge returns a text all the same: the pattern then matches
  everywhere, the whole document is removed, and the result is the body between two line
  breaks.
\<close>

theorem markers_not_validated:
  "start_marker shipped_markers \<noteq> [] \<and> end_marker shipped_markers \<noteq> []
   \<and> merge d g \<lparr>start_marker = [], end_marker = []\<rparr> = ''\<newline>'' @ g @ ''\<newline>''"
  by (simp add: merge_def merge_section_eq new_content_def find_existing_section_def
      search_no_markers remove_existing_section_def sub_empty_no_markers strip_Nil wrap_def
      shipped_markers_def)


text \<open>
  Claim C10. In the shipped configuration both markers are \<open>## local-helpers\<close>. The
  document of this claim is the text the search runs on (\<open>current_content\<close>). A section is
  found in it only if the marker occurs at least twice. When the marker occurs exactly
  once, no section is found, nothing of the document is removed, and the result is the
  document, the blank-line separator and the fresh block; this is then also the result
  of \<open>merge\<close> for every file text whose trimmed text is the document.
\<close>

theorem identical_markers:
  "start_marker shipped_markers = ''## local-helpers''
   \<and> end_marker shipped_markers = ''## local-helpers''
   \<and> (find_existing_section shipped_markers c \<noteq> None \<longrightarrow> 2 \<le> occurrences ''## local-helpers'' c)
   \<and> (occurrences ''## local-helpers'' c = 1 \<longrightarrow>
        find_existing_section shipped_markers c = None \<and> new_content shipped_markers c = c
        \<and> merge_section shipped_markers alias_content c = c @ ''\<newline>\<newline>'' @ alias_content
        \<and> (strip d = c \<longrightarrow>
             merge d g shipped_markers = c @ ''\<newline>\<newline>'' @ wrap shipped_markers g))"
proof -
  let ?M = "''## local-helpers''"
  have twice: "2 \<le> occurrences ?M c" if "search shipped_markers c \<noteq> None"
  proof -
    from that obtain a b c' where "c = a @ ?M @ b @ ?M @ c'"
      using search_Some_iff [of shipped_markers c] by (auto simp: shipped_markers_def)
    then show ?thesis using occurrences_twice [of ?M a b c'] by simp
  qed
  have once: "search shipped_markers c = None \<and> new_content shipped_markers c = c
      \<and> merge_section shipped_markers A c = c @ ''\<newline>\<newline>'' @ A"
    if "occurrences ?M c = 1" for A
  proof -
    from that twice have none: "search shipped_markers c = None" by fastforce
    then have kept: "new_content shipped_markers c = c" by (rule new_content_no_match)
    from that have "c \<noteq> []" by auto
    with none kept show ?thesis by (simp add: merge_section_eq)
  qed
  from twice once [of alias_content] once [of "wrap shipped_markers g"] show ?thesis
    by (simp add: find_existing_section_def merge_def shipped_markers_def)
qed

theorem identical_markers_witness:
  "find_existing_section shipped_markers ''## local-helpers old ## local-helpers'' \<noteq> None
   \<and> 2 \<le> occurrences ''## local-helpers'' ''## local-helpers old ## local-helpers''
   \<and> occurrences ''## local-helpers'' ''# see ## local-helpers'' = 1
   \<and> find_existing_section shipped_markers ''# see ## local-helpers'' = None
   \<and> merge_section shipped_markers ''BLOCK'' ''# see ## local-helpers''
       = ''# see ## local-helpers\<newline>\<newline>BLOCK''"
proof -
  have a: "find_existing_section shipped_markers ''## local-helpers old ## local-helpers'' \<noteq> None"
    by (simp add: find_existing_section_def match_at_def shipped_markers_def)
  have b: "occurrences ''## local-helpers'' ''# see ## local-helpers'' = 1"
    by simp
  from a b identical_markers [of "''## local-helpers old ## local-helpers''"]
    identical_markers [of "''# see ## local-helpers''" "''BLOCK''"]
  show ?thesis by simp
qed

end
